theory Spec2Isabelle
  imports Main
begin

section \<open>Bytes, decoded values and exceptions\<close>

text \<open>
  A Python \<^verbatim>\<open>bytes\<close> object is a list of 8-bit characters. A \<^verbatim>\<open>str\<close> built by
  \<^verbatim>\<open>byte.decode('utf-8')\<close> from single bytes below 0x80 holds ASCII only, so it is a
  list of the same characters.
\<close>

type_synonym bytes = "char list"

text \<open>
  What \<^verbatim>\<open>decode\<close> can return: \<^verbatim>\<open>None\<close>, an \<^verbatim>\<open>int\<close> (unbounded), a \<^verbatim>\<open>bytes\<close>
  slice of the data, a \<^verbatim>\<open>list\<close>, or an \<^verbatim>\<open>OrderedDict\<close> (its entries in
  insertion order).
\<close>

datatype pyval =
    PyNone
  | PyInt int
  | PyBytes bytes
  | PyList "pyval list"
  | PyDict "(pyval \<times> pyval) list"

text \<open>
  The exceptions the code can raise. \<open>EOFError\<close> and \<open>ValueError_format\<close> are the two
  \<^verbatim>\<open>raise\<close> statements of \<^verbatim>\<open>decode\<close>; the others come from the Python operations
  the code uses: \<open>ValueError_int\<close> from \<^verbatim>\<open>int(text)\<close> on an invalid literal,
  \<open>UnicodeDecodeError\<close> from \<^verbatim>\<open>byte.decode('utf-8')\<close>, \<open>AttributeError\<close> from
  \<^verbatim>\<open>None.decode\<close>, \<open>IndexError\<close> from \<^verbatim>\<open>self._data[self._index]\<close> and
  \<open>TypeError\<close> from \<^verbatim>\<open>d[key] = value\<close> with an unhashable key.
\<close>

datatype exn =
    EOFError
  | ValueError_format
  | ValueError_int
  | UnicodeDecodeError
  | AttributeError
  | IndexError
  | TypeError

definition INT' :: bytes where "INT' = ''i''"
definition LIST :: bytes where "LIST = ''l''"
definition DICT :: bytes where "DICT = ''d''"
definition STRING_SEP :: bytes where "STRING_SEP = '':''"
definition THE_END :: bytes where "THE_END = ''e''"

section \<open>The Python operations the decoder uses\<close>

text \<open>\<^verbatim>\<open>xs[i:j]\<close>: negative bounds count from the end, every bound is clamped.\<close>

definition py_slice :: "bytes \<Rightarrow> int \<Rightarrow> int \<Rightarrow> bytes" where
  "py_slice xs i j =
     (let n = int (length xs);
          lo = (if i < 0 then max (i + n) 0 else min i n);
          hi = (if j < 0 then max (j + n) 0 else min j n)
      in take (nat (hi - lo)) (drop (nat lo) xs))"

text \<open>\<^verbatim>\<open>xs[i]\<close>: raises IndexError out of range.\<close>

definition py_getitem :: "bytes \<Rightarrow> int \<Rightarrow> exn + char" where
  "py_getitem xs i =
     (let n = int (length xs); j = (if i < 0 then i + n else i)
      in if 0 \<le> j \<and> j < n then Inr (xs ! nat j) else Inl IndexError)"

text \<open>\<^verbatim>\<open>struct.pack("B", x)\<close>: the one byte \<open>x\<close>.\<close>

definition struct_pack_B :: "char \<Rightarrow> bytes" where
  "struct_pack_B c = [c]"

text \<open>\<^verbatim>\<open>x in ys\<close> on bytes objects: \<open>x\<close> occurs in \<open>ys\<close> as a contiguous run.\<close>

fun bytes_in :: "bytes \<Rightarrow> bytes \<Rightarrow> bool" where
  "bytes_in x [] = (x = [])"
| "bytes_in x (y # ys) = (take (length x) (y # ys) = x \<or> bytes_in x ys)"

text \<open>
  \<^verbatim>\<open>b.decode('utf-8')\<close> for the bytes objects the decoder calls it on, which hold one
  byte: a byte below 0x80 is that character, any other single byte is not valid UTF-8.
\<close>

definition decode_utf8 :: "bytes \<Rightarrow> string option" where
  "decode_utf8 b = (if \<forall>c \<in> set b. (of_char c :: nat) < 128 then Some b else None)"

text \<open>
  \<^verbatim>\<open>int(text)\<close> on an ASCII string, base 10: whitespace (tab, LF, VT, FF, CR, space)
  is skipped at both ends, one sign is allowed, then digits follow, where single
  underscores may stand between two digits. Anything else raises ValueError, and so
  does a text with more digits (leading zeros counted, underscores not) than
  \<^verbatim>\<open>sys.get_int_max_str_digits()\<close>, which is 4300 unless the interpreter is
  configured otherwise.
\<close>

definition int_max_str_digits :: nat where
  "int_max_str_digits = 4300"

definition is_space :: "char \<Rightarrow> bool" where
  "is_space c = (c \<in> set [CHR 0x09, CHR 0x0A, CHR 0x0B, CHR 0x0C, CHR 0x0D, CHR 0x20])"

definition is_digit :: "char \<Rightarrow> bool" where
  "is_digit c = (c \<in> set ''0123456789'')"

definition digit_val :: "char \<Rightarrow> nat" where
  "digit_val c = of_char c - 48"

fun int_body :: "bool \<Rightarrow> nat \<Rightarrow> string \<Rightarrow> nat option" where
  "int_body prev acc [] = (if prev then Some acc else None)"
| "int_body prev acc (c # cs) =
     (if is_digit c then int_body True (10 * acc + digit_val c) cs
      else if c = CHR ''_'' \<and> prev then int_body False acc cs
      else None)"

definition py_int :: "string \<Rightarrow> int option" where
  "py_int text =
     (let t = dropWhile is_space text;
          neg = (case t of [] \<Rightarrow> False | c # _ \<Rightarrow> c = CHR ''-'');
          u = (case t of [] \<Rightarrow> [] | c # r \<Rightarrow> if c = CHR ''-'' \<or> c = CHR ''+'' then r else t);
          w = rev (dropWhile is_space (rev u))
      in case int_body False 0 w of
           None \<Rightarrow> None
         | Some n \<Rightarrow>
             if int_max_str_digits < length (filter is_digit w) then None
             else Some (if neg then - int n else int n))"

text \<open>
  \<^verbatim>\<open>d[key] = value\<close> on an OrderedDict: a list or an OrderedDict as key is unhashable
  (TypeError); a key already present keeps its place and gets the new value; a new key
  goes to the end.
\<close>

fun hashable :: "pyval \<Rightarrow> bool" where
  "hashable (PyList _) = False"
| "hashable (PyDict _) = False"
| "hashable _ = True"

fun od_store :: "(pyval \<times> pyval) list \<Rightarrow> pyval \<Rightarrow> pyval \<Rightarrow> (pyval \<times> pyval) list" where
  "od_store [] k v = [(k, v)]"
| "od_store ((k', v') # d) k v =
     (if k' = k then (k', v) # d else (k', v') # od_store d k v)"

definition od_setitem :: "(pyval \<times> pyval) list \<Rightarrow> pyval \<Rightarrow> pyval \<Rightarrow> exn + (pyval \<times> pyval) list" where
  "od_setitem d k v = (if hashable k then Inr (od_store d k v) else Inl TypeError)"

section \<open>The decoder\<close>

text \<open>
  An instance of \<^verbatim>\<open>Bdecode\<close>: the fields \<^verbatim>\<open>_index\<close> and \<^verbatim>\<open>_data\<close>. The constructor
  reads the whole file; the model takes the bytes read.
\<close>

record decoder =
  index :: int
  data :: bytes

definition Bdecode_init :: "bytes \<Rightarrow> decoder" where
  "Bdecode_init contents = \<lparr>index = 0, data = contents\<rparr>"

text \<open>
  Every method returns its outcome together with the instance as it has left it:
  \<open>Inr\<close> the returned value, \<open>Inl\<close> the exception raised.
\<close>

definition getNextByte :: "decoder \<Rightarrow> bytes option \<times> decoder" where
  "getNextByte s =
     (if index s + 1 \<le> int (length (data s))
      then (Some (py_slice (data s) (index s) (index s + 1)), s\<lparr>index := index s + 1\<rparr>)
      else (None, s))"

text \<open>How far the cursor is from the end of the data.\<close>

definition remaining :: "decoder \<Rightarrow> nat" where
  "remaining s = nat (int (length (data s)) - index s)"

text \<open>The loop of \<^verbatim>\<open>_getStrLength\<close>, with the local variables \<open>l\<close> and \<open>byte\<close>.\<close>

function getStrLength_loop :: "string \<Rightarrow> bytes option \<Rightarrow> decoder \<Rightarrow> (exn + int) \<times> decoder" where
  "getStrLength_loop l byte s =
     (if byte \<noteq> Some STRING_SEP then
        (case byte of
           None \<Rightarrow> (Inl AttributeError, s)
         | Some b \<Rightarrow>
             (case decode_utf8 b of
                None \<Rightarrow> (Inl UnicodeDecodeError, s)
              | Some c \<Rightarrow> getStrLength_loop (l @ c) (fst (getNextByte s)) (snd (getNextByte s))))
      else
        (case py_int l of
           None \<Rightarrow> (Inl ValueError_int, s)
         | Some n \<Rightarrow> (Inr n, s)))"
  by pat_completeness auto
termination
  by (relation "measure (\<lambda>(l, byte, s). 2 * remaining s + (if byte = None then 0 else 1))")
     (auto simp: getNextByte_def remaining_def)

definition getStrLength :: "bytes \<Rightarrow> decoder \<Rightarrow> (exn + int) \<times> decoder" where
  "getStrLength byte s = getStrLength_loop [] (Some byte) s"

definition decodeStr :: "int \<Rightarrow> decoder \<Rightarrow> bytes \<times> decoder" where
  "decodeStr len s =
     (py_slice (data s) (index s) (index s + len), s\<lparr>index := index s + len\<rparr>)"

text \<open>The loop of \<^verbatim>\<open>_decodeInt\<close>, with the local variables \<open>i\<close> and \<open>b\<close>.\<close>

function decodeInt_loop :: "string \<Rightarrow> bytes option \<Rightarrow> decoder \<Rightarrow> (exn + int) \<times> decoder" where
  "decodeInt_loop i b s =
     (if b \<noteq> Some THE_END then
        (case b of
           None \<Rightarrow> (Inl AttributeError, s)
         | Some x \<Rightarrow>
             (case decode_utf8 x of
                None \<Rightarrow> (Inl UnicodeDecodeError, s)
              | Some c \<Rightarrow> decodeInt_loop (i @ c) (fst (getNextByte s)) (snd (getNextByte s))))
      else
        (case py_int i of
           None \<Rightarrow> (Inl ValueError_int, s)
         | Some n \<Rightarrow> (Inr n, s)))"
  by pat_completeness auto
termination
  by (relation "measure (\<lambda>(i, b, s). 2 * remaining s + (if b = None then 0 else 1))")
     (auto simp: getNextByte_def remaining_def)

definition decodeInt :: "decoder \<Rightarrow> (exn + int) \<times> decoder" where
  "decodeInt s = decodeInt_loop [] (fst (getNextByte s)) (snd (getNextByte s))"

text \<open>
  \<^verbatim>\<open>decode\<close>, \<^verbatim>\<open>_decodeList\<close> and \<^verbatim>\<open>_decodeDict\<close> call each other, and how far a
  call moves the cursor is known only once it has returned. The three functions
  therefore take a bound on the number of nested calls and loop rounds still allowed
  and return \<open>None\<close> when it is used up; \<open>decode\<close> below supplies a bound that is
  never used up. The list and the dictionary built so far are arguments of the loops.

  The bound is not the interpreter's recursion limit. How deep the calls may nest before
  the interpreter raises RecursionError depends on the interpreter, on its configured
  limit and on the depth of the caller's stack, none of which is in the source; the
  model describes the runs that stay within that limit.
\<close>

fun decode_f :: "nat \<Rightarrow> decoder \<Rightarrow> ((exn + pyval) \<times> decoder) option"
  and decodeList_f :: "nat \<Rightarrow> pyval list \<Rightarrow> decoder \<Rightarrow> ((exn + pyval) \<times> decoder) option"
  and decodeDict_f :: "nat \<Rightarrow> (pyval \<times> pyval) list \<Rightarrow> decoder \<Rightarrow> ((exn + pyval) \<times> decoder) option"
where
  "decode_f 0 s = None"
| "decode_f (Suc n) s =
     (case getNextByte s of
        (None, s1) \<Rightarrow> Some (Inl EOFError, s1)
      | (Some byte, s1) \<Rightarrow>
          if byte = INT' then
            (case decodeInt s1 of
               (Inl e, s2) \<Rightarrow> Some (Inl e, s2)
             | (Inr i, s2) \<Rightarrow> Some (Inr (PyInt i), s2))
          else if byte = LIST then decodeList_f n [] s1
          else if byte = DICT then decodeDict_f n [] s1
          else if byte = THE_END then Some (Inr PyNone, s1)
          else if bytes_in byte ''0123456789'' then
            (case getStrLength byte s1 of
               (Inl e, s2) \<Rightarrow> Some (Inl e, s2)
             | (Inr len, s2) \<Rightarrow>
                 (case decodeStr len s2 of (str, s3) \<Rightarrow> Some (Inr (PyBytes str), s3)))
          else Some (Inl ValueError_format, s1))"
| "decodeList_f 0 l s = None"
| "decodeList_f (Suc n) l s =
     (case py_getitem (data s) (index s) of
        Inl e \<Rightarrow> Some (Inl e, s)
      | Inr c \<Rightarrow>
          if struct_pack_B c \<noteq> THE_END then
            (case decode_f n s of
               None \<Rightarrow> None
             | Some (Inl e, s1) \<Rightarrow> Some (Inl e, s1)
             | Some (Inr v, s1) \<Rightarrow> decodeList_f n (l @ [v]) s1)
          else Some (Inr (PyList l), snd (getNextByte s)))"
| "decodeDict_f 0 d s = None"
| "decodeDict_f (Suc n) d s =
     (if py_slice (data s) (index s) (index s + 1) \<noteq> THE_END then
        (case decode_f n s of
           None \<Rightarrow> None
         | Some (Inl e, s1) \<Rightarrow> Some (Inl e, s1)
         | Some (Inr key, s1) \<Rightarrow>
             (case decode_f n s1 of
                None \<Rightarrow> None
              | Some (Inl e, s2) \<Rightarrow> Some (Inl e, s2)
              | Some (Inr val, s2) \<Rightarrow>
                  (case od_setitem d key val of
                     Inl e \<Rightarrow> Some (Inl e, s2)
                   | Inr d' \<Rightarrow> decodeDict_f n d' s2)))
      else Some (Inr (PyDict d), s))"

text \<open>
  \<^verbatim>\<open>decode\<close> itself: two nested calls or loop rounds per byte not yet read are enough
  (theorem \<open>decode_returns\<close>).
\<close>

definition decode :: "decoder \<Rightarrow> ((exn + pyval) \<times> decoder) option" where
  "decode s = decode_f (2 * remaining s + 1) s"

section \<open>Notions used to state the properties\<close>

text \<open>
  \<open>frame s s'\<close>: the run from \<open>s\<close> to \<open>s'\<close> has kept the data and has not moved the
  cursor back. \<open>progress s r s'\<close>: moreover, when the run returned a value, there was
  a byte to read at \<open>s\<close> and the cursor has moved forward.
\<close>

definition frame :: "decoder \<Rightarrow> decoder \<Rightarrow> bool" where
  "frame s s' = (data s' = data s \<and> index s \<le> index s')"

definition progress :: "decoder \<Rightarrow> (exn + pyval) \<Rightarrow> decoder \<Rightarrow> bool" where
  "progress s r s' = (frame s s' \<and> (isl r \<or> (index s < index s' \<and> index s < int (length (data s)))))"


text \<open>The bytes from the cursor on.\<close>

definition unread :: "decoder \<Rightarrow> bytes" where
  "unread s = drop (nat (index s)) (data s)"





text \<open>
  Inputs for the dictionary loop. \<open>bstr x\<close> is the encoding of a byte string \<open>x\<close>
  shorter than 10 bytes: the digit of its length, a colon, the bytes. \<open>dict_input es\<close>
  is the encoding of a dictionary with the entries \<open>es\<close> in that order, keys and values
  byte strings, the same key any number of times; \<open>entry_val\<close> is the pair of values an
  entry decodes to.
\<close>

definition digit_char :: "nat \<Rightarrow> char" where
  "digit_char n = ''0123456789'' ! (n mod 10)"

definition bstr :: "bytes \<Rightarrow> bytes" where
  "bstr x = digit_char (length x) # CHR '':'' # x"

definition entry_input :: "bytes \<times> bytes \<Rightarrow> bytes" where
  "entry_input e = bstr (fst e) @ bstr (snd e)"

definition dict_input :: "(bytes \<times> bytes) list \<Rightarrow> bytes" where
  "dict_input es = CHR ''d'' # concat (map entry_input es) @ ''e''"



section \<open>The byte-access primitive and the two inner loops\<close>

lemma getNextByte_data: "data (snd (getNextByte s)) = data s"
  by (simp add: getNextByte_def)

lemma getNextByte_index_le: "index s \<le> index (snd (getNextByte s))"
  by (simp add: getNextByte_def)

lemma getNextByte_Some:
  "getNextByte s = (Some b, s1) \<Longrightarrow>
     s1 = s\<lparr>index := index s + 1\<rparr> \<and> index s + 1 \<le> int (length (data s))"
  by (auto simp: getNextByte_def split: if_splits)

lemma getNextByte_None: "getNextByte s = (None, s1) \<Longrightarrow> s1 = s"
  by (auto simp: getNextByte_def split: if_splits)

lemma py_slice_one:
  "0 \<le> i \<Longrightarrow> i + 1 \<le> int (length xs) \<Longrightarrow> py_slice xs i (i + 1) = [xs ! nat i]"
proof -
  assume a: "0 \<le> i" "i + 1 \<le> int (length xs)"
  then have "nat i < length xs" by linarith
  then have "take 1 (drop (nat i) xs) = [xs ! nat i]"
    by (metis One_nat_def Cons_nth_drop_Suc take0 take_Suc_Cons)
  moreover have "py_slice xs i (i + 1) = take 1 (drop (nat i) xs)"
    using a by (simp add: py_slice_def Let_def min_def)
  ultimately show ?thesis by simp
qed

lemma getNextByte_byte:
  "0 \<le> index s \<Longrightarrow> getNextByte s = (Some b, s1) \<Longrightarrow> b = [data s ! nat (index s)]"
  by (auto simp: getNextByte_def py_slice_one split: if_splits)

lemma py_int_digit_nonneg:
  assumes "is_digit c" "py_int (c # cs) = Some n"
  shows "0 \<le> n"
proof -
  have ns: "\<not> is_space c" and nm: "c \<noteq> CHR ''-''"
    using assms(1) by (auto simp: is_digit_def is_space_def)
  show ?thesis
    using assms(2) ns nm
    by (auto simp: py_int_def Let_def split: option.splits if_splits)
qed

lemma getStrLength_loop_frame:
  "getStrLength_loop l byte s = (r, s') \<Longrightarrow> data s' = data s \<and> index s \<le> index s'"
proof (induction l byte s rule: getStrLength_loop.induct)
  case (1 l byte s)
  show ?case
  proof (cases "byte \<noteq> Some STRING_SEP")
    case False
    with "1.prems" show ?thesis
      by (auto simp: getStrLength_loop.simps[of l byte s] split: option.splits)
  next
    case True
    show ?thesis
    proof (cases byte)
      case None
      with True "1.prems" show ?thesis by (simp add: getStrLength_loop.simps[of l byte s])
    next
      case (Some b)
      show ?thesis
      proof (cases "decode_utf8 b")
        case None
        with True Some "1.prems" show ?thesis by (simp add: getStrLength_loop.simps[of l byte s])
      next
        case (Some c)
        with True \<open>byte = Some b\<close> "1.prems"
        have "getStrLength_loop (l @ c) (fst (getNextByte s)) (snd (getNextByte s)) = (r, s')"
          by (simp add: getStrLength_loop.simps[of l byte s])
        from "1.IH"[OF True \<open>byte = Some b\<close> Some this]
        show ?thesis
          using getNextByte_data[of s] getNextByte_index_le[of s] by simp
      qed
    qed
  qed
qed


lemma decodeInt_loop_frame:
  "decodeInt_loop i b s = (r, s') \<Longrightarrow> data s' = data s \<and> index s \<le> index s'"
proof (induction i b s rule: decodeInt_loop.induct)
  case (1 i b s)
  show ?case
  proof (cases "b \<noteq> Some THE_END")
    case False
    with "1.prems" show ?thesis
      by (auto simp: decodeInt_loop.simps[of i b s] split: option.splits)
  next
    case True
    show ?thesis
    proof (cases b)
      case None
      with True "1.prems" show ?thesis by (simp add: decodeInt_loop.simps[of i b s])
    next
      case (Some x)
      show ?thesis
      proof (cases "decode_utf8 x")
        case None
        with True Some "1.prems" show ?thesis by (simp add: decodeInt_loop.simps[of i b s])
      next
        case (Some c)
        with True \<open>b = Some x\<close> "1.prems"
        have "decodeInt_loop (i @ c) (fst (getNextByte s)) (snd (getNextByte s)) = (r, s')"
          by (simp add: decodeInt_loop.simps[of i b s])
        from "1.IH"[OF True \<open>b = Some x\<close> Some this]
        show ?thesis
          using getNextByte_data[of s] getNextByte_index_le[of s] by simp
      qed
    qed
  qed
qed

lemma decodeInt_frame:
  "decodeInt s = (r, s') \<Longrightarrow> data s' = data s \<and> index s \<le> index s'"
  unfolding decodeInt_def
  using decodeInt_loop_frame[of "[]" "fst (getNextByte s)" "snd (getNextByte s)" r s']
        getNextByte_data[of s] getNextByte_index_le[of s]
  by auto

lemma decode_utf8_Some: "decode_utf8 b = Some c \<Longrightarrow> c = b"
  by (simp add: decode_utf8_def split: if_splits)

text \<open>The text collected by the loop starts with the digit the loop was entered with.\<close>

lemma getStrLength_loop_nonneg:
  "getStrLength_loop l byte s = (Inr n, s') \<Longrightarrow>
   (case l of [] \<Rightarrow> (\<exists>c. byte = Some [c] \<and> is_digit c) | c # _ \<Rightarrow> is_digit c) \<Longrightarrow>
   0 \<le> n"
proof (induction l byte s rule: getStrLength_loop.induct)
  case (1 l byte s)
  show ?case
  proof (cases "byte \<noteq> Some STRING_SEP")
    case False
    then have sep: "byte = Some STRING_SEP" by simp
    with "1.prems"(2) obtain c cs where l: "l = c # cs" and d: "is_digit c"
      by (cases l) (auto simp: STRING_SEP_def is_digit_def)
    from sep "1.prems"(1) have "py_int l = Some n"
      by (auto simp: getStrLength_loop.simps[of l byte s] split: option.splits)
    with l d show ?thesis using py_int_digit_nonneg by blast
  next
    case True
    show ?thesis
    proof (cases byte)
      case None
      with True "1.prems" show ?thesis by (simp add: getStrLength_loop.simps[of l byte s])
    next
      case (Some b)
      show ?thesis
      proof (cases "decode_utf8 b")
        case None
        with True Some "1.prems" show ?thesis by (simp add: getStrLength_loop.simps[of l byte s])
      next
        case (Some c)
        with True \<open>byte = Some b\<close> "1.prems"
        have run: "getStrLength_loop (l @ c) (fst (getNextByte s)) (snd (getNextByte s)) = (Inr n, s')"
          by (simp add: getStrLength_loop.simps[of l byte s])
        have cb: "c = b" using Some by (rule decode_utf8_Some)
        have "case l @ c of [] \<Rightarrow> (\<exists>c. fst (getNextByte s) = Some [c] \<and> is_digit c) | c # _ \<Rightarrow> is_digit c"
          using "1.prems"(2) \<open>byte = Some b\<close> cb by (cases l) auto
        from "1.IH"[OF True \<open>byte = Some b\<close> Some run this]
        show ?thesis .
      qed
    qed
  qed
qed

lemma bytes_in_digits: "bytes_in [c] ''0123456789'' \<Longrightarrow> is_digit c"
  by (auto simp: is_digit_def)

lemma getStrLength_nonneg:
  "bytes_in [c] ''0123456789'' \<Longrightarrow> getStrLength [c] s = (Inr n, s') \<Longrightarrow> 0 \<le> n"
  unfolding getStrLength_def
  using getStrLength_loop_nonneg[of "[]" "Some [c]" s n s'] bytes_in_digits[of c]
  by auto

lemma getStrLength_frame:
  "getStrLength b s = (r, s') \<Longrightarrow> data s' = data s \<and> index s \<le> index s'"
  unfolding getStrLength_def by (rule getStrLength_loop_frame)

section \<open>The cursor never moves back, and a returned value has consumed a byte\<close>

lemma decode_f_Suc_progress:
  assumes IHl: "\<And>l s r s'. 0 \<le> index s \<Longrightarrow> decodeList_f n l s = Some (r, s') \<Longrightarrow> frame s s'"
    and IHd: "\<And>d s r s'. 0 \<le> index s \<Longrightarrow> decodeDict_f n d s = Some (r, s') \<Longrightarrow> frame s s'"
    and nn: "0 \<le> index s"
    and run: "decode_f (Suc n) s = Some (r, s')"
  shows "progress s r s'"
proof (cases "getNextByte s")
  case (Pair ob s1)
  show ?thesis
  proof (cases ob)
    case None
    with Pair run getNextByte_None[of s s1] show ?thesis
      by (auto simp: progress_def frame_def)
  next
    case (Some byte)
    with Pair have g: "getNextByte s = (Some byte, s1)" by simp
    from getNextByte_Some[OF g] have s1: "s1 = s\<lparr>index := index s + 1\<rparr>"
      and inb: "index s + 1 \<le> int (length (data s))" by auto
    from getNextByte_byte[OF nn g] obtain c where byte: "byte = [c]" by blast
    have nn1: "0 \<le> index s1" using s1 nn by simp
    have d1: "data s1 = data s" and i1: "index s1 = index s + 1" using s1 by auto
    consider (int) "byte = INT'" | (list) "byte \<noteq> INT'" "byte = LIST"
      | (dict) "byte \<noteq> INT'" "byte \<noteq> LIST" "byte = DICT"
      | (the_end) "byte \<noteq> INT'" "byte \<noteq> LIST" "byte \<noteq> DICT" "byte = THE_END"
      | (str) "byte \<noteq> INT'" "byte \<noteq> LIST" "byte \<noteq> DICT" "byte \<noteq> THE_END" "bytes_in byte ''0123456789''"
      | (other) "byte \<noteq> INT'" "byte \<noteq> LIST" "byte \<noteq> DICT" "byte \<noteq> THE_END" "\<not> bytes_in byte ''0123456789''"
      by blast
    then show ?thesis
    proof cases
      case int
      obtain x s2 where di: "decodeInt s1 = (x, s2)" by (cases "decodeInt s1")
      from decodeInt_frame[OF di] have "data s2 = data s1" "index s1 \<le> index s2" by auto
      moreover from run g int di have "s' = s2"
        by (auto split: sum.splits)
      ultimately show ?thesis using d1 i1 inb by (auto simp: progress_def frame_def)
    next
      case list
      with run g have "decodeList_f n [] s1 = Some (r, s')" by simp
      from IHl[OF nn1 this] show ?thesis using d1 i1 inb by (auto simp: progress_def frame_def)
    next
      case dict
      with run g have "decodeDict_f n [] s1 = Some (r, s')" by simp
      from IHd[OF nn1 this] show ?thesis using d1 i1 inb by (auto simp: progress_def frame_def)
    next
      case the_end
      with run g have "s' = s1" by simp
      then show ?thesis using d1 i1 inb by (auto simp: progress_def frame_def)
    next
      case str
      obtain x s2 where gl: "getStrLength byte s1 = (x, s2)" by (cases "getStrLength byte s1")
      from getStrLength_frame[OF gl] have f2: "data s2 = data s1" "index s1 \<le> index s2" by auto
      show ?thesis
      proof (cases x)
        case (Inl e)
        with run g str gl have "s' = s2" by simp
        with f2 show ?thesis using d1 i1 inb by (auto simp: progress_def frame_def)
      next
        case (Inr len)
        with gl str(5) byte have "0 \<le> len" using getStrLength_nonneg by blast
        moreover from run g str gl Inr have "s' = s2\<lparr>index := index s2 + len\<rparr>"
          by (simp add: decodeStr_def)
        ultimately show ?thesis using f2 d1 i1 inb by (auto simp: progress_def frame_def)
      qed
    next
      case other
      with run g have "s' = s1" by simp
      then show ?thesis using d1 i1 inb by (auto simp: progress_def frame_def)
    qed
  qed
qed


lemma frame_trans: "frame s s1 \<Longrightarrow> frame s1 s2 \<Longrightarrow> frame s s2"
  by (auto simp: frame_def)

lemma frame_refl: "frame s s"
  by (simp add: frame_def)

lemma progress_frame: "progress s r s' \<Longrightarrow> frame s s'"
  by (simp add: progress_def)

lemma frame_nonneg: "frame s s' \<Longrightarrow> 0 \<le> index s \<Longrightarrow> 0 \<le> index s'"
  by (simp add: frame_def)

lemma frame_getNextByte: "frame s (snd (getNextByte s))"
  by (simp add: frame_def getNextByte_data getNextByte_index_le)

lemma decodeList_f_Suc_frame:
  assumes IH: "\<And>s r s'. 0 \<le> index s \<Longrightarrow> decode_f n s = Some (r, s') \<Longrightarrow> progress s r s'"
    and IHl: "\<And>l s r s'. 0 \<le> index s \<Longrightarrow> decodeList_f n l s = Some (r, s') \<Longrightarrow> frame s s'"
    and nn: "0 \<le> index s"
    and run: "decodeList_f (Suc n) l s = Some (r, s')"
  shows "frame s s'"
proof (cases "py_getitem (data s) (index s)")
  case (Inl e)
  with run show ?thesis by (simp add: frame_refl)
next
  case (Inr c)
  show ?thesis
  proof (cases "struct_pack_B c \<noteq> THE_END")
    case False
    with run Inr have "s' = snd (getNextByte s)" by simp
    then show ?thesis by (simp add: frame_getNextByte)
  next
    case True
    show ?thesis
    proof (cases "decode_f n s")
      case None
      with run Inr True show ?thesis by simp
    next
      case (Some p)
      obtain r1 s1 where p: "p = (r1, s1)" by (cases p)
      from IH[OF nn Some[unfolded p]] have f1: "frame s s1" by (rule progress_frame)
      show ?thesis
      proof (cases r1)
        case (Inl e)
        with run Inr True Some p have "s' = s1" by simp
        with f1 show ?thesis by simp
      next
        case (Inr v)
        with run \<open>py_getitem (data s) (index s) = Inr c\<close> True Some p
        have "decodeList_f n (l @ [v]) s1 = Some (r, s')" by simp
        from IHl[OF frame_nonneg[OF f1 nn] this] f1 show ?thesis
          by (blast intro: frame_trans)
      qed
    qed
  qed
qed

lemma decodeDict_f_Suc_frame:
  assumes IH: "\<And>s r s'. 0 \<le> index s \<Longrightarrow> decode_f n s = Some (r, s') \<Longrightarrow> progress s r s'"
    and IHd: "\<And>d s r s'. 0 \<le> index s \<Longrightarrow> decodeDict_f n d s = Some (r, s') \<Longrightarrow> frame s s'"
    and nn: "0 \<le> index s"
    and run: "decodeDict_f (Suc n) d s = Some (r, s')"
  shows "frame s s'"
proof (cases "py_slice (data s) (index s) (index s + 1) \<noteq> THE_END")
  case False
  with run show ?thesis by (simp add: frame_refl)
next
  case True
  show ?thesis
  proof (cases "decode_f n s")
    case None
    with run True show ?thesis by simp
  next
    case (Some p)
    obtain r1 s1 where p: "p = (r1, s1)" by (cases p)
    from IH[OF nn Some[unfolded p]] have f1: "frame s s1" by (rule progress_frame)
    have nn1: "0 \<le> index s1" by (rule frame_nonneg[OF f1 nn])
    show ?thesis
    proof (cases r1)
      case (Inl e)
      with run True Some p have "s' = s1" by simp
      with f1 show ?thesis by simp
    next
      case (Inr key)
      note key = this
      show ?thesis
      proof (cases "decode_f n s1")
        case None
        with run True Some p key show ?thesis by simp
      next
        case (Some p2)
        obtain r2 s2 where p2: "p2 = (r2, s2)" by (cases p2)
        from IH[OF nn1 Some[unfolded p2]] have f2: "frame s1 s2" by (rule progress_frame)
        have f02: "frame s s2" by (rule frame_trans[OF f1 f2])
        show ?thesis
        proof (cases r2)
          case (Inl e)
          with run True \<open>decode_f n s = Some p\<close> p key Some p2 have "s' = s2" by simp
          with f02 show ?thesis by simp
        next
          case (Inr val)
          note val = this
          show ?thesis
          proof (cases "od_setitem d key val")
            case (Inl e)
            with run True \<open>decode_f n s = Some p\<close> p key Some p2 val have "s' = s2" by simp
            with f02 show ?thesis by simp
          next
            case (Inr d')
            with run True \<open>decode_f n s = Some p\<close> p key Some p2 val
            have "decodeDict_f n d' s2 = Some (r, s')" by simp
            from IHd[OF frame_nonneg[OF f02 nn] this] f02 show ?thesis
              by (blast intro: frame_trans)
          qed
        qed
      qed
    qed
  qed
qed

lemma decode_f_invariants:
  "(\<forall>s r s'. 0 \<le> index s \<longrightarrow> decode_f n s = Some (r, s') \<longrightarrow> progress s r s') \<and>
   (\<forall>l s r s'. 0 \<le> index s \<longrightarrow> decodeList_f n l s = Some (r, s') \<longrightarrow> frame s s') \<and>
   (\<forall>d s r s'. 0 \<le> index s \<longrightarrow> decodeDict_f n d s = Some (r, s') \<longrightarrow> frame s s')"
proof (induction n)
  case 0
  show ?case by simp
next
  case (Suc n)
  then have IH: "\<And>s r s'. 0 \<le> index s \<Longrightarrow> decode_f n s = Some (r, s') \<Longrightarrow> progress s r s'"
    and IHl: "\<And>l s r s'. 0 \<le> index s \<Longrightarrow> decodeList_f n l s = Some (r, s') \<Longrightarrow> frame s s'"
    and IHd: "\<And>d s r s'. 0 \<le> index s \<Longrightarrow> decodeDict_f n d s = Some (r, s') \<Longrightarrow> frame s s'"
    by blast+
  have a: "progress s r s'" if "0 \<le> index s" "decode_f (Suc n) s = Some (r, s')" for s r s'
    using IHl IHd that by (rule decode_f_Suc_progress)
  have b: "frame s s'" if "0 \<le> index s" "decodeList_f (Suc n) l s = Some (r, s')" for l s r s'
    using IH IHl that by (rule decodeList_f_Suc_frame)
  have c: "frame s s'" if "0 \<le> index s" "decodeDict_f (Suc n) d s = Some (r, s')" for d s r s'
    using IH IHd that by (rule decodeDict_f_Suc_frame)
  from a b c show ?case by blast
qed

lemma decode_f_progress:
  "0 \<le> index s \<Longrightarrow> decode_f n s = Some (r, s') \<Longrightarrow> progress s r s'"
  using decode_f_invariants[of n] by blast

lemma decodeList_f_frame:
  "0 \<le> index s \<Longrightarrow> decodeList_f n l s = Some (r, s') \<Longrightarrow> frame s s'"
  using decode_f_invariants[of n] by blast

lemma decodeDict_f_frame:
  "0 \<le> index s \<Longrightarrow> decodeDict_f n d s = Some (r, s') \<Longrightarrow> frame s s'"
  using decode_f_invariants[of n] by blast

section \<open>Every call returns\<close>

lemma progress_remaining: "progress s (Inr v) s' \<Longrightarrow> remaining s' < remaining s"
  by (auto simp: progress_def frame_def remaining_def)

lemma getNextByte_remaining:
  "getNextByte s = (Some b, s1) \<Longrightarrow> remaining s = Suc (remaining s1)"
  by (auto simp: getNextByte_def remaining_def split: if_splits)

lemma decode_f_Suc_returns:
  assumes IHl: "\<And>l s. 0 \<le> index s \<Longrightarrow> 2 * remaining s + 2 \<le> n \<Longrightarrow> decodeList_f n l s \<noteq> None"
    and IHd: "\<And>d s. 0 \<le> index s \<Longrightarrow> 2 * remaining s + 2 \<le> n \<Longrightarrow> decodeDict_f n d s \<noteq> None"
    and nn: "0 \<le> index s"
    and fuel: "2 * remaining s + 1 \<le> Suc n"
  shows "decode_f (Suc n) s \<noteq> None"
proof (cases "getNextByte s")
  case (Pair ob s1)
  show ?thesis
  proof (cases ob)
    case None
    with Pair show ?thesis by simp
  next
    case (Some byte)
    with Pair have g: "getNextByte s = (Some byte, s1)" by simp
    from getNextByte_Some[OF g] nn have nn1: "0 \<le> index s1" by auto
    from getNextByte_remaining[OF g] fuel have f1: "2 * remaining s1 + 2 \<le> n" by simp
    from IHl[OF nn1 f1] IHd[OF nn1 f1] g show ?thesis
      by (auto split: prod.splits sum.splits)
  qed
qed

lemma decodeList_f_Suc_returns:
  assumes IH: "\<And>s. 0 \<le> index s \<Longrightarrow> 2 * remaining s + 1 \<le> n \<Longrightarrow> decode_f n s \<noteq> None"
    and IHl: "\<And>l s. 0 \<le> index s \<Longrightarrow> 2 * remaining s + 2 \<le> n \<Longrightarrow> decodeList_f n l s \<noteq> None"
    and nn: "0 \<le> index s"
    and fuel: "2 * remaining s + 2 \<le> Suc n"
  shows "decodeList_f (Suc n) l s \<noteq> None"
proof -
  from fuel have f0: "2 * remaining s + 1 \<le> n" by simp
  from IH[OF nn f0] obtain r1 s1 where d1: "decode_f n s = Some (r1, s1)" by auto
  from decode_f_progress[OF nn d1] have p1: "progress s r1 s1" .
  show ?thesis
  proof (cases r1)
    case (Inl e)
    with d1 show ?thesis by (auto split: sum.splits)
  next
    case (Inr v)
    with p1 have "remaining s1 < remaining s" by (simp add: progress_remaining)
    with fuel have f1: "2 * remaining s1 + 2 \<le> n" by simp
    have nn1: "0 \<le> index s1" using p1 nn by (auto simp: progress_def frame_def)
    from IHl[OF nn1 f1] d1 Inr show ?thesis by (auto split: sum.splits)
  qed
qed

lemma decodeDict_f_Suc_returns:
  assumes IH: "\<And>s. 0 \<le> index s \<Longrightarrow> 2 * remaining s + 1 \<le> n \<Longrightarrow> decode_f n s \<noteq> None"
    and IHd: "\<And>d s. 0 \<le> index s \<Longrightarrow> 2 * remaining s + 2 \<le> n \<Longrightarrow> decodeDict_f n d s \<noteq> None"
    and nn: "0 \<le> index s"
    and fuel: "2 * remaining s + 2 \<le> Suc n"
  shows "decodeDict_f (Suc n) d s \<noteq> None"
proof -
  from fuel have f0: "2 * remaining s + 1 \<le> n" by simp
  from IH[OF nn f0] obtain r1 s1 where d1: "decode_f n s = Some (r1, s1)" by auto
  from decode_f_progress[OF nn d1] have p1: "progress s r1 s1" .
  have nn1: "0 \<le> index s1" using p1 nn by (auto simp: progress_def frame_def)
  show ?thesis
  proof (cases r1)
    case (Inl e)
    with d1 show ?thesis by simp
  next
    case (Inr key)
    note key = this
    with p1 have r1: "remaining s1 < remaining s" by (simp add: progress_remaining)
    with fuel have f1: "2 * remaining s1 + 1 \<le> n" by simp
    from IH[OF nn1 f1] obtain r2 s2 where d2: "decode_f n s1 = Some (r2, s2)" by auto
    from decode_f_progress[OF nn1 d2] have p2: "progress s1 r2 s2" .
    have nn2: "0 \<le> index s2" using p2 nn1 by (auto simp: progress_def frame_def)
    show ?thesis
    proof (cases r2)
      case (Inl e)
      with d1 key d2 show ?thesis by simp
    next
      case (Inr val)
      with p2 have "remaining s2 < remaining s1" by (simp add: progress_remaining)
      with r1 fuel have f2: "2 * remaining s2 + 2 \<le> n" by simp
      from IHd[OF nn2 f2] d1 key d2 Inr show ?thesis by (auto split: sum.splits)
    qed
  qed
qed

lemma decode_f_enough:
  "(\<forall>s. 0 \<le> index s \<longrightarrow> 2 * remaining s + 1 \<le> n \<longrightarrow> decode_f n s \<noteq> None) \<and>
   (\<forall>l s. 0 \<le> index s \<longrightarrow> 2 * remaining s + 2 \<le> n \<longrightarrow> decodeList_f n l s \<noteq> None) \<and>
   (\<forall>d s. 0 \<le> index s \<longrightarrow> 2 * remaining s + 2 \<le> n \<longrightarrow> decodeDict_f n d s \<noteq> None)"
proof (induction n)
  case 0
  show ?case by simp
next
  case (Suc n)
  then have IH: "\<And>s. 0 \<le> index s \<Longrightarrow> 2 * remaining s + 1 \<le> n \<Longrightarrow> decode_f n s \<noteq> None"
    and IHl: "\<And>l s. 0 \<le> index s \<Longrightarrow> 2 * remaining s + 2 \<le> n \<Longrightarrow> decodeList_f n l s \<noteq> None"
    and IHd: "\<And>d s. 0 \<le> index s \<Longrightarrow> 2 * remaining s + 2 \<le> n \<Longrightarrow> decodeDict_f n d s \<noteq> None"
    by blast+
  have a: "decode_f (Suc n) s \<noteq> None" if "0 \<le> index s" "2 * remaining s + 1 \<le> Suc n" for s
    using IHl IHd that by (rule decode_f_Suc_returns)
  have b: "decodeList_f (Suc n) l s \<noteq> None" if "0 \<le> index s" "2 * remaining s + 2 \<le> Suc n" for l s
    using IH IHl that by (rule decodeList_f_Suc_returns)
  have c: "decodeDict_f (Suc n) d s \<noteq> None" if "0 \<le> index s" "2 * remaining s + 2 \<le> Suc n" for d s
    using IH IHd that by (rule decodeDict_f_Suc_returns)
  from a b c show ?case by blast
qed

lemma decode_returns_aux: "0 \<le> index s \<Longrightarrow> \<exists>r s'. decode s = Some (r, s')"
  using decode_f_enough[of "2 * remaining s + 1"] by (auto simp: decode_def)

text \<open>More fuel never changes a result.\<close>

lemma decode_f_Suc_mono:
  assumes IHl: "\<And>l s p. decodeList_f n l s = Some p \<Longrightarrow> decodeList_f m l s = Some p"
    and IHd: "\<And>d s p. decodeDict_f n d s = Some p \<Longrightarrow> decodeDict_f m d s = Some p"
    and run: "decode_f (Suc n) s = Some p"
  shows "decode_f (Suc m) s = Some p"
proof (cases "getNextByte s")
  case (Pair ob s1)
  show ?thesis
  proof (cases ob)
    case None
    with Pair run show ?thesis by simp
  next
    case (Some byte)
    with Pair have g: "getNextByte s = (Some byte, s1)" by simp
    consider (int) "byte = INT'" | (list) "byte \<noteq> INT'" "byte = LIST"
      | (dict) "byte \<noteq> INT'" "byte \<noteq> LIST" "byte = DICT"
      | (other) "byte \<noteq> INT'" "byte \<noteq> LIST" "byte \<noteq> DICT"
      by blast
    then show ?thesis
    proof cases
      case int
      with g have "decode_f (Suc m) s = decode_f (Suc n) s" by simp
      with run show ?thesis by simp
    next
      case list
      with run g have "decodeList_f n [] s1 = Some p" by simp
      from IHl[OF this] list g show ?thesis by simp
    next
      case dict
      with run g have "decodeDict_f n [] s1 = Some p" by simp
      from IHd[OF this] dict g show ?thesis by simp
    next
      case other
      with g have "decode_f (Suc m) s = decode_f (Suc n) s" by simp
      with run show ?thesis by simp
    qed
  qed
qed

lemma decodeList_f_Suc_mono:
  assumes IH: "\<And>s p. decode_f n s = Some p \<Longrightarrow> decode_f m s = Some p"
    and IHl: "\<And>l s p. decodeList_f n l s = Some p \<Longrightarrow> decodeList_f m l s = Some p"
    and run: "decodeList_f (Suc n) l s = Some p"
  shows "decodeList_f (Suc m) l s = Some p"
proof (cases "py_getitem (data s) (index s)")
  case (Inl e)
  with run show ?thesis by simp
next
  case (Inr c)
  show ?thesis
  proof (cases "struct_pack_B c \<noteq> THE_END")
    case False
    with run Inr show ?thesis by simp
  next
    case True
    show ?thesis
    proof (cases "decode_f n s")
      case None
      with run Inr True show ?thesis by simp
    next
      case (Some q)
      obtain r1 s1 where q: "q = (r1, s1)" by (cases q)
      from IH[OF Some] q have m1: "decode_f m s = Some (r1, s1)" by simp
      show ?thesis
      proof (cases r1)
        case (Inl e)
        with run Inr True Some q have p: "p = (Inl e, s1)" by auto
        show ?thesis unfolding p using Inr True m1 Inl by simp
      next
        case (Inr v)
        with run \<open>py_getitem (data s) (index s) = Inr c\<close> True Some q
        have "decodeList_f n (l @ [v]) s1 = Some p" by simp
        from IHl[OF this] \<open>py_getitem (data s) (index s) = Inr c\<close> True m1 Inr
        show ?thesis by simp
      qed
    qed
  qed
qed

lemma decodeDict_f_Suc_mono:
  assumes IH: "\<And>s p. decode_f n s = Some p \<Longrightarrow> decode_f m s = Some p"
    and IHd: "\<And>d s p. decodeDict_f n d s = Some p \<Longrightarrow> decodeDict_f m d s = Some p"
    and run: "decodeDict_f (Suc n) d s = Some p"
  shows "decodeDict_f (Suc m) d s = Some p"
proof (cases "py_slice (data s) (index s) (index s + 1) \<noteq> THE_END")
  case False
  with run show ?thesis by simp
next
  case True
  show ?thesis
  proof (cases "decode_f n s")
    case None
    with run True show ?thesis by simp
  next
    case (Some q)
    obtain r1 s1 where q: "q = (r1, s1)" by (cases q)
    from IH[OF Some] q have m1: "decode_f m s = Some (r1, s1)" by simp
    from Some q have n1: "decode_f n s = Some (r1, s1)" by simp
    show ?thesis
    proof (cases r1)
      case (Inl e)
      with run True n1 have p: "p = (Inl e, s1)" by auto
      show ?thesis unfolding p using True m1 Inl by simp
    next
      case (Inr key)
      note key = this
      show ?thesis
      proof (cases "decode_f n s1")
        case None
        with run True n1 key show ?thesis by simp
      next
        case (Some q2)
        obtain r2 s2 where q2: "q2 = (r2, s2)" by (cases q2)
        from IH[OF Some] q2 have m2: "decode_f m s1 = Some (r2, s2)" by simp
        from Some q2 have n2: "decode_f n s1 = Some (r2, s2)" by simp
        show ?thesis
        proof (cases r2)
          case (Inl e)
          with run True n1 key n2 have p: "p = (Inl e, s2)" by auto
          show ?thesis unfolding p using True m1 key m2 Inl by simp
        next
          case (Inr val)
          note val = this
          show ?thesis
          proof (cases "od_setitem d key val")
            case (Inl e)
            with run True n1 key n2 val have p: "p = (Inl e, s2)" by auto
            show ?thesis unfolding p using True m1 key m2 val Inl by simp
          next
            case (Inr d')
            with run True n1 key n2 val have "decodeDict_f n d' s2 = Some p" by simp
            from IHd[OF this] True m1 key m2 val Inr show ?thesis by simp
          qed
        qed
      qed
    qed
  qed
qed

lemma decode_f_mono_all:
  "(\<forall>m s p. n \<le> m \<longrightarrow> decode_f n s = Some p \<longrightarrow> decode_f m s = Some p) \<and>
   (\<forall>m l s p. n \<le> m \<longrightarrow> decodeList_f n l s = Some p \<longrightarrow> decodeList_f m l s = Some p) \<and>
   (\<forall>m d s p. n \<le> m \<longrightarrow> decodeDict_f n d s = Some p \<longrightarrow> decodeDict_f m d s = Some p)"
proof (induction n)
  case 0
  show ?case by simp
next
  case (Suc n)
  have a: "decode_f m s = Some p" if le: "Suc n \<le> m" and run: "decode_f (Suc n) s = Some p" for m s p
  proof -
    from le obtain m' where m: "m = Suc m'" and le': "n \<le> m'" by (cases m) auto
    have IHl: "\<And>l s p. decodeList_f n l s = Some p \<Longrightarrow> decodeList_f m' l s = Some p"
      and IHd: "\<And>d s p. decodeDict_f n d s = Some p \<Longrightarrow> decodeDict_f m' d s = Some p"
      using Suc le' by blast+
    show ?thesis unfolding m using IHl IHd run by (rule decode_f_Suc_mono)
  qed
  have b: "decodeList_f m l s = Some p" if le: "Suc n \<le> m" and run: "decodeList_f (Suc n) l s = Some p" for m l s p
  proof -
    from le obtain m' where m: "m = Suc m'" and le': "n \<le> m'" by (cases m) auto
    have IH: "\<And>s p. decode_f n s = Some p \<Longrightarrow> decode_f m' s = Some p"
      and IHl: "\<And>l s p. decodeList_f n l s = Some p \<Longrightarrow> decodeList_f m' l s = Some p"
      using Suc le' by blast+
    show ?thesis unfolding m using IH IHl run by (rule decodeList_f_Suc_mono)
  qed
  have c: "decodeDict_f m d s = Some p" if le: "Suc n \<le> m" and run: "decodeDict_f (Suc n) d s = Some p" for m d s p
  proof -
    from le obtain m' where m: "m = Suc m'" and le': "n \<le> m'" by (cases m) auto
    have IH: "\<And>s p. decode_f n s = Some p \<Longrightarrow> decode_f m' s = Some p"
      and IHd: "\<And>d s p. decodeDict_f n d s = Some p \<Longrightarrow> decodeDict_f m' d s = Some p"
      using Suc le' by blast+
    show ?thesis unfolding m using IH IHd run by (rule decodeDict_f_Suc_mono)
  qed
  from a b c show ?case by blast
qed

lemma decode_f_mono: "decode_f n s = Some p \<Longrightarrow> n \<le> m \<Longrightarrow> decode_f m s = Some p"
  using decode_f_mono_all[of n] by blast

lemma decode_eq_decode_f:
  assumes "decode_f n s = Some p" "0 \<le> index s"
  shows "decode s = Some p"
proof -
  from decode_returns_aux[OF assms(2)] obtain q where q: "decode_f (2 * remaining s + 1) s = Some q"
    by (auto simp: decode_def)
  let ?k = "max n (2 * remaining s + 1)"
  from decode_f_mono[OF assms(1), of ?k] have "decode_f ?k s = Some p" by simp
  moreover from decode_f_mono[OF q, of ?k] have "decode_f ?k s = Some q" by simp
  ultimately have "p = q" by simp
  with q show ?thesis by (simp add: decode_def)
qed

section \<open>Decoding at a known position\<close>

lemma unread_Cons:
  assumes "0 \<le> index s" "unread s = c # rest"
  shows "index s + 1 \<le> int (length (data s))"
    and "data s ! nat (index s) = c"
    and "unread (s\<lparr>index := index s + 1\<rparr>) = rest"
proof -
  from assms(2) have d: "drop (nat (index s)) (data s) = c # rest" by (simp add: unread_def)
  then have lt: "nat (index s) < length (data s)"
    by (metis drop_all list.distinct(1) not_le)
  with assms(1) show "index s + 1 \<le> int (length (data s))" by linarith
  from d lt show "data s ! nat (index s) = c"
    by (metis Cons_nth_drop_Suc list.inject)
  from d lt have "drop (Suc (nat (index s))) (data s) = rest"
    by (metis Cons_nth_drop_Suc list.inject)
  moreover have "nat (index s + 1) = Suc (nat (index s))" using assms(1) by simp
  ultimately show "unread (s\<lparr>index := index s + 1\<rparr>) = rest" by (simp add: unread_def)
qed


lemma getNextByte_unread:
  assumes "0 \<le> index s" "unread s = c # rest"
  shows "getNextByte s = (Some [c], s\<lparr>index := index s + 1\<rparr>)"
  using unread_Cons(1,2)[OF assms] assms(1)
  by (simp add: getNextByte_def py_slice_one)

lemma py_getitem_unread:
  assumes "0 \<le> index s" "unread s = c # rest"
  shows "py_getitem (data s) (index s) = Inr c"
  using unread_Cons(1,2)[OF assms] assms(1)
  by (simp add: py_getitem_def Let_def)


section \<open>What a returned value is made of\<close>







section \<open>Instances\<close>


lemma same_instance_twice:
  "decode (Bdecode_init ''i1ei2e'') = Some (Inr (PyInt 1), \<lparr>index = 3, data = ''i1ei2e''\<rparr>) \<and>
   decode \<lparr>index = 3, data = ''i1ei2e''\<rparr> = Some (Inr (PyInt 2), \<lparr>index = 6, data = ''i1ei2e''\<rparr>)"
  by code_simp

section \<open>Dictionaries of short byte strings\<close>












subsection \<open>What repeated stores leave in the dictionary\<close>






lemma dict_input_example:
  "dict_input [(''a'', ''x''), (''b'', ''y''), (''a'', ''z'')] = ''d1:a1:x1:b1:y1:a1:ze''"
  by (simp add: dict_input_def entry_input_def bstr_def digit_char_def)

lemma decode_duplicate_example:
  "decode (Bdecode_init ''d1:a1:x1:b1:y1:a1:ze'') =
     Some (Inr (PyDict [(PyBytes ''a'', PyBytes ''z''), (PyBytes ''b'', PyBytes ''y'')]),
           \<lparr>index = 19, data = ''d1:a1:x1:b1:y1:a1:ze''\<rparr>)"
  by code_simp

section \<open>Behaviour on the literal inputs of the specification\<close>

text \<open>
  C7. For the input \<^verbatim>\<open>b"4:spam"\<close>, \<^verbatim>\<open>decode\<close> returns the byte string
  \<^verbatim>\<open>spam\<close> and leaves the cursor at offset 6.
\<close>

theorem decode_4_spam:
  "decode (Bdecode_init ''4:spam'') =
     Some (Inr (PyBytes ''spam''), \<lparr>index = 6, data = ''4:spam''\<rparr>)"
  by code_simp

text \<open>
  C6. For the input \<^verbatim>\<open>b"ie"\<close> decoding fails: \<^verbatim>\<open>int("")\<close> rejects the empty
  text as an integer literal and raises ValueError.
\<close>

theorem decode_ie_fails:
  "decode (Bdecode_init ''ie'') = Some (Inl ValueError_int, \<lparr>index = 2, data = ''ie''\<rparr>)"
  by code_simp

text \<open>
  C1. \<^verbatim>\<open>_decodeDict\<close> returns with the cursor on the terminating \<^verbatim>\<open>e\<close>, not one
  past it: on \<^verbatim>\<open>b"de"\<close> the cursor ends at 1 of 2, and in
  \<^verbatim>\<open>b"ld1:a1:bei5ee"\<close> the list takes the dictionary's terminator for its own, so
  the element \<^verbatim>\<open>i5e\<close> after the dictionary is never decoded.
\<close>

theorem decodeDict_leaves_terminator:
  "decode (Bdecode_init ''de'') = Some (Inr (PyDict []), \<lparr>index = 1, data = ''de''\<rparr>) \<and>
   decode (Bdecode_init ''ld1:a1:bei5ee'') =
     Some (Inr (PyList [PyDict [(PyBytes ''a'', PyBytes ''b'')]]),
           \<lparr>index = 9, data = ''ld1:a1:bei5ee''\<rparr>)"
  by code_simp

text \<open>
  C2. On \<^verbatim>\<open>b"5:ab"\<close>, which declares five bytes and holds two, \<^verbatim>\<open>decode\<close> raises
  nothing: it returns the two bytes that are there.
\<close>

theorem decodeStr_returns_truncated:
  "decode (Bdecode_init ''5:ab'') = Some (Inr (PyBytes ''ab''), \<lparr>index = 7, data = ''5:ab''\<rparr>)"
  by code_simp

text \<open>
  C3. On the same input \<^verbatim>\<open>_decodeStr\<close> moves the cursor past the end of the data:
  the cursor ends at 7 in a buffer of 4 bytes.
\<close>

theorem cursor_past_end:
  "map_option (\<lambda>(r, s'). (index s', length (data s'))) (decode (Bdecode_init ''5:ab'')) =
     Some (7, 4)"
  by code_simp

text \<open>
  C4, as the claim states it, fails: when the first byte is \<^verbatim>\<open>e\<close>, \<^verbatim>\<open>decode\<close>
  returns \<^verbatim>\<open>None\<close> and raises nothing.
\<close>

theorem decode_e_returns_None:
  "decode (Bdecode_init ''e'') = Some (Inr PyNone, \<lparr>index = 1, data = ''e''\<rparr>)"
  by code_simp


text \<open>
  C4, as the design of the code has it: when the first byte of the data is \<^verbatim>\<open>e\<close>,
  whatever follows, \<^verbatim>\<open>decode\<close> returns \<^verbatim>\<open>None\<close>, having consumed that one byte.
\<close>

theorem decode_e_first:
  "decode (Bdecode_init (CHR ''e'' # rest)) =
     Some (Inr PyNone, \<lparr>index = 1, data = CHR ''e'' # rest\<rparr>)"
proof -
  let ?s = "Bdecode_init (CHR ''e'' # rest)"
  have nn: "0 \<le> index ?s" by (simp add: Bdecode_init_def)
  have u: "unread ?s = CHR ''e'' # rest" by (simp add: unread_def Bdecode_init_def)
  have "decode_f (Suc 0) ?s = Some (Inr PyNone, ?s\<lparr>index := index ?s + 1\<rparr>)"
    using getNextByte_unread[OF nn u]
    by (simp add: INT'_def LIST_def DICT_def THE_END_def)
  from decode_eq_decode_f[OF this nn] show ?thesis by (simp add: Bdecode_init_def)
qed







section \<open>Further properties\<close>

text \<open>
  X1. \<^verbatim>\<open>decode\<close> on a new instance returns for every content of the file: with a
  value or with an exception.
\<close>

theorem decode_returns: "\<exists>r s'. decode (Bdecode_init contents) = Some (r, s')"
  by (rule decode_returns_aux) (simp add: Bdecode_init_def)

text \<open>
  X2. A call of \<^verbatim>\<open>decode\<close>, whatever its outcome, keeps the data and never moves
  the cursor back; when it returns a value, the cursor has moved forward.
\<close>

theorem cursor_never_moves_back:
  assumes "decode s = Some (r, s')" and "0 \<le> index s"
  shows "data s' = data s \<and> index s \<le> index s' \<and> (isl r \<or> index s < index s')"
  using decode_f_progress[OF assms(2), of "2 * remaining s + 1" r s'] assms(1)
  by (auto simp: decode_def progress_def frame_def)

theorem cursor_never_moves_back_witness:
  "data \<lparr>index = 6, data = ''4:spam''\<rparr> = data (Bdecode_init ''4:spam'') \<and>
   index (Bdecode_init ''4:spam'') \<le> index \<lparr>index = 6, data = ''4:spam''\<rparr> \<and>
   (isl (Inr (PyBytes ''spam'') :: exn + pyval) \<or>
    index (Bdecode_init ''4:spam'') < index \<lparr>index = 6, data = ''4:spam''\<rparr>)"
proof -
  have run: "decode (Bdecode_init ''4:spam'') =
      Some (Inr (PyBytes ''spam''), \<lparr>index = 6, data = ''4:spam''\<rparr>)"
    by code_simp
  have nn: "0 \<le> index (Bdecode_init ''4:spam'')" by (simp add: Bdecode_init_def)
  show ?thesis by (rule cursor_never_moves_back[OF run nn])
qed

end
